theory Spec2Isabelle
  imports Complex_Main
begin

section \<open>Trial engine of the artificial grammar learning experiment\<close>

text \<open>
  The embedding follows \<^verbatim>\<open>artificial_grammar_experiment.py\<close>: the training phase
  (two blocks, every stimulus repeated until it is typed correctly) and the test phase
  (one timed two-key classification per item).

  What the program receives from outside is an argument of the model:
  \<^item> the successive return values of \<^verbatim>\<open>event.getKeys(timeStamped = clock)\<close>, a list of
    batches of \<open>(key, time)\<close> pairs. A poll that finds the list used up stands for a
    participant who sends nothing more: every later poll is empty, the loop never ends;
  \<^item> the return value of \<^verbatim>\<open>event.waitKeys(..., maxWait = 6, timeStamped = clock)\<close> of each
    test item: \<open>None\<close>, or a list of \<open>(key, time)\<close> pairs;
  \<^item> the permutation \<^verbatim>\<open>random.shuffle\<close> draws for each block;
  \<^item> the upper-case forms of the code points from U+0100 on, a table \<open>ucd\<close>.

  A Python string is a list of Unicode code points, a code point a natural number. Time
  stamps are real numbers. The calls of \<^verbatim>\<open>display_text\<close>, \<^verbatim>\<open>core.wait\<close> and
  \<^verbatim>\<open>to_csv\<close> are written to a log, in the order the program makes them.
\<close>

subsection \<open>Strings\<close>

type_synonym codepoint = nat
type_synonym str = "codepoint list"

text \<open>The string a literal of ASCII characters denotes.\<close>

definition str :: "string \<Rightarrow> str" where
  "str s = map of_char s"

text \<open>\<^verbatim>\<open>str.upper\<close> of one code point. Below U+0100 the table is written out: a to z and
  the letters U+00E0 to U+00FE (the division sign U+00F7 apart) move down by 32, the
  micro sign becomes U+039C, the sharp s becomes the two letters SS, and U+00FF becomes
  U+0178; every other code point there is left as it is, the ordinal indicators U+00AA
  and U+00BA among them. From U+0100 on the form is read from \<open>ucd\<close>.\<close>

definition upper_char :: "(codepoint \<Rightarrow> str) \<Rightarrow> codepoint \<Rightarrow> str" where
  "upper_char ucd c =
     (if 0x61 \<le> c \<and> c \<le> 0x7A then [c - 32]
      else if c = 0xB5 then [0x39C]
      else if c = 0xDF then [0x53, 0x53]
      else if 0xE0 \<le> c \<and> c \<le> 0xFE \<and> c \<noteq> 0xF7 then [c - 32]
      else if c = 0xFF then [0x178]
      else if c < 0x100 then [c]
      else ucd c)"

text \<open>\<^verbatim>\<open>str.upper\<close>: the forms of the code points, joined.\<close>

definition upper :: "(codepoint \<Rightarrow> str) \<Rightarrow> str \<Rightarrow> str" where
  "upper ucd s = concat (map (upper_char ucd) s)"

text \<open>\<^verbatim>\<open>str.islower\<close> of one code point below U+0100: a to z, the two ordinal
  indicators, the micro sign, and U+00DF to U+00FF without the division sign.\<close>

definition islower_latin1 :: "codepoint \<Rightarrow> bool" where
  "islower_latin1 c =
     ((0x61 \<le> c \<and> c \<le> 0x7A) \<or> c = 0xAA \<or> c = 0xB5 \<or> c = 0xBA
      \<or> (0xDF \<le> c \<and> c \<le> 0xFF \<and> c \<noteq> 0xF7))"

text \<open>\<^verbatim>\<open>str.isspace\<close> of one code point, the whole of Unicode: the ASCII controls 9 to 13
  and 28 to 31, the space, U+0085, U+00A0, U+1680, U+2000 to U+200A, U+2028, U+2029,
  U+202F, U+205F and U+3000.\<close>

definition isspace :: "codepoint \<Rightarrow> bool" where
  "isspace c =
     ((9 \<le> c \<and> c \<le> 13) \<or> (28 \<le> c \<and> c \<le> 32) \<or> c = 0x85 \<or> c = 0xA0 \<or> c = 0x1680
      \<or> (0x2000 \<le> c \<and> c \<le> 0x200A) \<or> c = 0x2028 \<or> c = 0x2029 \<or> c = 0x202F
      \<or> c = 0x205F \<or> c = 0x3000)"

text \<open>\<^verbatim>\<open>str.strip()\<close>: the whitespace at both ends removed.\<close>

definition strip :: "str \<Rightarrow> str" where
  "strip s = rev (dropWhile isspace (rev (dropWhile isspace s)))"

subsection \<open>Records, effects and the session\<close>

type_synonym key_event = "str \<times> real"

record training_record =
  block :: nat
  stimulus :: str
  participant_response :: str
  accuracy :: nat
  RT :: "real option"

text \<open>The value of the column \<^verbatim>\<open>grammar rule\<close> as pandas reads it: an integer, a float
  (a number, or the NaN of an empty cell) or a string.\<close>

datatype label = Int_label int | Float_label real | NaN_label | Str_label str

text \<open>Python's \<^verbatim>\<open>grammar_rule == 0\<close>.\<close>

fun equals_zero :: "label \<Rightarrow> bool" where
  "equals_zero (Int_label i) = (i = 0)"
| "equals_zero (Float_label x) = (x = 0)"
| "equals_zero NaN_label = False"
| "equals_zero (Str_label s) = False"

record test_record =
  stimulus_test :: str
  grammar_rule :: label
  key_pressed :: "str option"
  correct_key :: str
  accuracy_test :: nat
  RT_test :: "real option"

datatype effect =
    Display str
  | Wait nat
  | Save_training "training_record list"
  | Save_test "test_record list"

record session =
  results_training_phase :: "training_record list"
  results_test_phase :: "test_record list"
  log :: "effect list"

definition emit :: "effect list \<Rightarrow> session \<Rightarrow> session" where
  "emit es st = st\<lparr>log := log st @ es\<rparr>"

text \<open>A loop that polls the keyboard either returns a value and the session it leaves,
  or polls for ever in the session it has reached.\<close>

datatype 'a outcome = Done 'a session | Polling session

subsection \<open>Training phase\<close>

text \<open>The \<^verbatim>\<open>for key, time_ in keys\<close> loop over one batch (lines 208 to 218). The loop has
  no \<^verbatim>\<open>break\<close>: it runs through the whole batch. \<open>trial\<close> is the list of the entries
  appended, each the upper-case form of one key name.\<close>

fun handle_keys ::
  "(codepoint \<Rightarrow> str) \<Rightarrow> key_event list \<Rightarrow> str list \<times> real option \<times> bool
    \<Rightarrow> str list \<times> real option \<times> bool"
where
  "handle_keys ucd [] s = s"
| "handle_keys ucd ((key, tm) # keys) (trial, rt, response) =
     (if key = str ''return'' then handle_keys ucd keys (trial, Some tm, False)
      else if key = str ''backspace'' then
        handle_keys ucd keys ((if trial \<noteq> [] then butlast trial else trial), rt, response)
      else if length key = 1 then
        handle_keys ucd keys (trial @ [upper ucd key], rt, response)
      else handle_keys ucd keys (trial, rt, response))"

text \<open>The \<^verbatim>\<open>while response == True\<close> loop (lines 204 to 222): one batch per turn, the
  joined buffer displayed after each batch.\<close>

fun collect ::
  "(codepoint \<Rightarrow> str) \<Rightarrow> key_event list list \<Rightarrow> str list \<Rightarrow> real option \<Rightarrow> session
    \<Rightarrow> (str \<times> real option \<times> key_event list list) outcome"
where
  "collect ucd [] trial rt st = Polling st"
| "collect ucd (keys # rest) trial rt st =
     (case handle_keys ucd keys (trial, rt, True) of
        (trial', rt', response) \<Rightarrow>
          let st' = emit [Display (concat trial')] st in
          if response then collect ucd rest trial' rt' st'
          else Done (concat trial', rt', rest) st')"

definition incorrect_notice :: str where
  "incorrect_notice = str ''INCORRECT!'' @ [10, 10] @ str ''PLEASE TRY AGAIN.''"

text \<open>One turn of the \<^verbatim>\<open>while repeat\<close> loop (lines 186 to 244): an attempt. The value
  returned is \<open>(repeat, input left)\<close>.\<close>

definition training_attempt ::
  "(codepoint \<Rightarrow> str) \<Rightarrow> nat \<Rightarrow> str \<Rightarrow> key_event list list \<Rightarrow> session
    \<Rightarrow> (bool \<times> key_event list list) outcome"
where
  "training_attempt ucd blk training_stimulus input st =
     (case collect ucd input [] None
             (emit [Display [], Display training_stimulus, Wait 4] st) of
        Polling st1 \<Rightarrow> Polling st1
      | Done (response_text, rt, rest) st1 \<Rightarrow>
          let correct = (training_stimulus = strip response_text);
              st2 = (if correct then st1 else emit [Display incorrect_notice, Wait 2] st1);
              results = results_training_phase st2 @
                [\<lparr>block = blk, stimulus = training_stimulus,
                  participant_response = response_text,
                  accuracy = (if correct then 1 else 0), RT = rt\<rparr>];
              st3 = emit [Save_training results] (st2\<lparr>results_training_phase := results\<rparr>)
          in Done (\<not> correct, rest) st3)"

text \<open>The \<^verbatim>\<open>while repeat\<close> loop (lines 182 to 244) for one stimulus. Every attempt that
  returns has used up at least one batch, so the recursion is on a shorter input.\<close>

function run_stimulus ::
  "(codepoint \<Rightarrow> str) \<Rightarrow> nat \<Rightarrow> str \<Rightarrow> key_event list list \<Rightarrow> session
    \<Rightarrow> (key_event list list) outcome"
where
  "run_stimulus ucd blk training_stimulus input st =
     (case training_attempt ucd blk training_stimulus input st of
        Polling st' \<Rightarrow> Polling st'
      | Done (repeat, rest) st' \<Rightarrow>
          if repeat then run_stimulus ucd blk training_stimulus rest st' else Done rest st')"
  by pat_completeness auto
termination
proof (relation "measure (\<lambda>(ucd, blk, s, input, st). length input)")
  show "wf (measure (\<lambda>(ucd, blk, s, input, st). length input))"
    by simp
next
  fix ucd :: "codepoint \<Rightarrow> str" and blk :: nat and training_stimulus :: str
    and input :: "key_event list list"
    and st :: session and x1 :: "bool \<times> key_event list list" and st' :: session
    and repeat :: bool and rest :: "key_event list list"
  assume a: "training_attempt ucd blk training_stimulus input st = Done x1 st'"
    and x: "(repeat, rest) = x1"
  have shorter: "length r < length i"
    if "collect ucd i t rt s = Done (buf, rt', r) s'"
    for i t rt s buf rt' r s'
    using that
  proof (induction i arbitrary: t rt s)
    case Nil
    then show ?case by simp
  next
    case (Cons keys i)
    obtain t1 rt1 resp where h: "handle_keys ucd keys (t, rt, True) = (t1, rt1, resp)"
      by (cases "handle_keys ucd keys (t, rt, True)") auto
    show ?case
    proof (cases resp)
      case True
      with Cons.prems h
      have "collect ucd i t1 rt1 (emit [Display (concat t1)] s) = Done (buf, rt', r) s'"
        by (simp add: Let_def)
      from Cons.IH [OF this] show ?thesis by simp
    next
      case False
      with Cons.prems h show ?thesis by (simp add: Let_def)
    qed
  qed
  from a x have "length rest < length input"
    by (auto simp: training_attempt_def Let_def split: outcome.splits prod.splits
          dest: shorter)
  then show "((ucd, blk, training_stimulus, rest, st'), (ucd, blk, training_stimulus, input, st))
      \<in> measure (\<lambda>(ucd, blk, s, input, st). length input)"
    by simp
qed

text \<open>The \<^verbatim>\<open>for training_stimulus in training_stimuli_list\<close> loop of one block.\<close>

fun run_block ::
  "(codepoint \<Rightarrow> str) \<Rightarrow> nat \<Rightarrow> str list \<Rightarrow> key_event list list \<Rightarrow> session
    \<Rightarrow> (key_event list list) outcome"
where
  "run_block ucd blk [] input st = Done input st"
| "run_block ucd blk (training_stimulus # remaining) input st =
     (case run_stimulus ucd blk training_stimulus input st of
        Polling st' \<Rightarrow> Polling st'
      | Done rest st' \<Rightarrow> run_block ucd blk remaining rest st')"

text \<open>The \<^verbatim>\<open>for block in range(1, 3)\<close> loop. \<open>shuffle b\<close> is the permutation
  \<^verbatim>\<open>random.shuffle\<close> applies in block \<open>b\<close>; it shuffles the list in place, so the
  second block starts from the order of the first.\<close>

fun run_blocks ::
  "(codepoint \<Rightarrow> str) \<Rightarrow> (nat \<Rightarrow> str list \<Rightarrow> str list) \<Rightarrow> nat list \<Rightarrow> str list
    \<Rightarrow> key_event list list \<Rightarrow> session \<Rightarrow> (key_event list list) outcome"
where
  "run_blocks ucd shuffle [] training_stimuli_list input st = Done input st"
| "run_blocks ucd shuffle (blk # blks) training_stimuli_list input st =
     (let shuffled = shuffle blk training_stimuli_list in
      case run_block ucd blk shuffled input st of
        Polling st' \<Rightarrow> Polling st'
      | Done rest st' \<Rightarrow> run_blocks ucd shuffle blks shuffled rest st')"

definition training_phase ::
  "(codepoint \<Rightarrow> str) \<Rightarrow> (nat \<Rightarrow> str list \<Rightarrow> str list) \<Rightarrow> str list
    \<Rightarrow> key_event list list \<Rightarrow> session \<Rightarrow> (key_event list list) outcome"
where
  "training_phase ucd shuffle training_stimuli_list input st =
     run_blocks ucd shuffle [1, 2] training_stimuli_list input st"

subsection \<open>Test phase\<close>

definition key_options :: "str list" where
  "key_options = [str ''J'', str ''F'']"

text \<open>Lines 269 to 302 of the body of the \<^verbatim>\<open>for index, row in test_stimuli_df.iterrows()\<close>
  loop: the defaults, the two branches on \<^verbatim>\<open>grammar_rule == 0\<close>, and the dictionary that
  is appended. \<open>key_response\<close> is what \<^verbatim>\<open>event.waitKeys\<close> returned for this item;
  Python's \<^verbatim>\<open>if key_response\<close> holds for a list that is not empty.\<close>

definition score_item ::
  "(codepoint \<Rightarrow> str) \<Rightarrow> str \<Rightarrow> label \<Rightarrow> key_event list option \<Rightarrow> test_record"
where
  "score_item ucd test_stimulus rule key_response =
     (if equals_zero rule then
        (case key_response of
           Some ((key, tm) # later) \<Rightarrow>
             \<lparr>stimulus_test = test_stimulus, grammar_rule = rule,
              key_pressed = Some (upper ucd key), correct_key = key_options ! 0,
              accuracy_test = (if upper ucd key = key_options ! 0 then 1 else 0),
              RT_test = Some tm\<rparr>
         | _ \<Rightarrow>
             \<lparr>stimulus_test = test_stimulus, grammar_rule = rule,
              key_pressed = None, correct_key = key_options ! 0,
              accuracy_test = 0, RT_test = None\<rparr>)
      else
        (case key_response of
           Some ((key, tm) # later) \<Rightarrow>
             \<lparr>stimulus_test = test_stimulus, grammar_rule = rule,
              key_pressed = Some (upper ucd key), correct_key = key_options ! 1,
              accuracy_test = (if upper ucd key = key_options ! 1 then 1 else 0),
              RT_test = Some tm\<rparr>
         | _ \<Rightarrow>
             \<lparr>stimulus_test = test_stimulus, grammar_rule = rule,
              key_pressed = None, correct_key = key_options ! 1,
              accuracy_test = 0, RT_test = None\<rparr>))"

text \<open>One turn of the loop (lines 260 to 302): the stimulus is displayed, the answer is
  scored, the record is appended to \<^verbatim>\<open>results_test_phase\<close>. Nothing is written to disk.\<close>

definition test_trial ::
  "(codepoint \<Rightarrow> str) \<Rightarrow> str \<Rightarrow> label \<Rightarrow> key_event list option \<Rightarrow> session \<Rightarrow> session"
where
  "test_trial ucd test_stimulus rule key_response st =
     (let st1 = emit [Display test_stimulus] st
      in st1\<lparr>results_test_phase :=
               results_test_phase st1 @ [score_item ucd test_stimulus rule key_response]\<rparr>)"

text \<open>The loop over the rows, each with the answer \<^verbatim>\<open>event.waitKeys\<close> gave for it.\<close>

fun test_trials ::
  "(codepoint \<Rightarrow> str) \<Rightarrow> (str \<times> label \<times> key_event list option) list \<Rightarrow> session \<Rightarrow> session"
where
  "test_trials ucd [] st = st"
| "test_trials ucd ((test_stimulus, rule, key_response) # remaining) st =
     test_trials ucd remaining (test_trial ucd test_stimulus rule key_response st)"

text \<open>The whole phase: the loop, then the one \<^verbatim>\<open>test_df.to_csv\<close> of lines 305 and 306.\<close>

definition test_phase ::
  "(codepoint \<Rightarrow> str) \<Rightarrow> (str \<times> label \<times> key_event list option) list \<Rightarrow> session \<Rightarrow> session"
where
  "test_phase ucd items st =
     (let st' = test_trials ucd items st in emit [Save_test (results_test_phase st')] st')"

text \<open>The two result lists are empty when the program starts (lines 162 and 163).\<close>

definition start :: session where
  "start = \<lparr>results_training_phase = [], results_test_phase = [], log = []\<rparr>"

subsection \<open>Observing a run\<close>

text \<open>The session a run has reached, whether it returned or is still polling.\<close>

fun session_of :: "'a outcome \<Rightarrow> session" where
  "session_of (Done x st) = st"
| "session_of (Polling st) = st"

text \<open>Every presentation of a training stimulus ends with the hold of 4 seconds, the
  only \<^verbatim>\<open>core.wait(4)\<close> of the program: counting them counts the attempts begun.\<close>

definition presentations :: "effect list \<Rightarrow> nat" where
  "presentations es = count_list es (Wait 4)"

subsection \<open>Example runs\<close>

text \<open>A table that leaves every code point from U+0100 on as it is. The runs below type
  no such code point, so they never read it.\<close>

definition plain_table :: "codepoint \<Rightarrow> str" where
  "plain_table c = [c]"

text \<open>The participant types VOTEV and commits, then, shown the word again, types VOTEV,
  deletes the last letter, types B and commits.\<close>

definition typed_votev_then_voteb :: "key_event list list" where
  "typed_votev_then_voteb =
     [[(str ''v'', 0.5), (str ''o'', 1), (str ''t'', 1.2)],
      [(str ''e'', 1.5), (str ''v'', 1.8)], [(str ''return'', 3)],
      [(str ''v'', 0.5), (str ''o'', 1), (str ''t'', 1.2)],
      [(str ''e'', 1.5), (str ''v'', 1.8), (str ''backspace'', 2), (str ''b'', 2.5),
       (str ''return'', 3.5)]]"

subsection \<open>One attempt\<close>

subsection \<open>What every training record satisfies\<close>

subsection \<open>The example runs, evaluated\<close>

lemmas run_defs =
  training_phase_def training_attempt_def run_stimulus.simps test_phase_def test_trial_def
  score_item_def key_options_def str_def upper_def upper_char_def strip_def isspace_def
  emit_def start_def plain_table_def Let_def

text \<open>A batch that types one letter more than the stimulus has, then commits.\<close>

definition too_long_answer :: "str \<Rightarrow> key_event list" where
  "too_long_answer s = replicate (Suc (length s)) (str ''x'', 0) @ [(str ''return'', 0)]"

section \<open>Properties\<close>

subsection \<open>Strings\<close>

lemma str_eq_iff: "str a = str b \<longleftrightarrow> a = b"
proof -
  have "inj (of_char :: char \<Rightarrow> nat)"
    by (rule injI) simp
  then show ?thesis
    by (simp add: str_def)
qed

lemma backspace_not_return: "str ''backspace'' \<noteq> str ''return''"
  by (simp add: str_eq_iff)

lemma upper_single: "upper ucd [c] = upper_char ucd c"
  by (simp add: upper_def)

lemma upper_one_key: "length key = 1 \<Longrightarrow> \<exists>c. upper ucd key = upper_char ucd c"
  by (cases key) (auto simp: upper_def)

lemma set_strip: "set (strip s) \<subseteq> set s"
proof -
  have "set (dropWhile isspace (rev (dropWhile isspace s))) \<subseteq> set (rev (dropWhile isspace s))"
    by (auto dest: set_dropWhileD)
  moreover have "set (dropWhile isspace s) \<subseteq> set s"
    by (auto dest: set_dropWhileD)
  ultimately show ?thesis by (auto simp: strip_def)
qed


subsection \<open>One batch of key events\<close>

lemma handle_keys_one:
  "handle_keys ucd [(key, tm)] (trial, rt, response) =
     (if key = str ''return'' then (trial, Some tm, False)
      else if key = str ''backspace'' then (butlast trial, rt, response)
      else if length key = 1 then (trial @ [upper ucd key], rt, response)
      else (trial, rt, response))"
  by simp

lemma handle_keys_step:
  "handle_keys ucd ((key, tm) # keys) (trial, rt, response) =
     handle_keys ucd keys (handle_keys ucd [(key, tm)] (trial, rt, response))"
  by simp

lemma handle_keys_append:
  "handle_keys ucd (xs @ ys) s = handle_keys ucd ys (handle_keys ucd xs s)"
proof (induction xs arbitrary: s)
  case Nil
  show ?case by simp
next
  case (Cons e xs)
  obtain key tm where e: "e = (key, tm)" by (cases e)
  obtain trial rt response where s: "s = (trial, rt, response)" by (cases s)
  show ?case unfolding e s by (simp add: Cons.IH)
qed

text \<open>Every entry of the buffer is the upper-case form of one code point.\<close>

lemma handle_keys_one_entries:
  assumes "handle_keys ucd [(key, tm)] (trial, rt, response) = (trial', rt', response')"
    and en: "\<forall>w\<in>set trial. \<exists>c. w = upper_char ucd c"
  shows "\<forall>w\<in>set trial'. \<exists>c. w = upper_char ucd c"
proof -
  have b: "\<forall>w\<in>set (butlast trial). \<exists>c. w = upper_char ucd c"
    using en by (auto dest: in_set_butlastD)
  have u: "length key = 1 \<Longrightarrow> \<forall>w\<in>set (trial @ [upper ucd key]). \<exists>c. w = upper_char ucd c"
    using en upper_one_key [of key ucd] by auto
  from assms(1) have "trial' = trial \<or> trial' = butlast trial
      \<or> (length key = 1 \<and> trial' = trial @ [upper ucd key])"
    unfolding handle_keys_one by (auto split: if_splits)
  with en b u show ?thesis by blast
qed

lemma handle_keys_entries:
  "handle_keys ucd keys (trial, rt, response) = (trial', rt', response')
    \<Longrightarrow> \<forall>w\<in>set trial. \<exists>c. w = upper_char ucd c
    \<Longrightarrow> \<forall>w\<in>set trial'. \<exists>c. w = upper_char ucd c"
proof (induction keys arbitrary: trial rt response)
  case Nil
  then show ?case by simp
next
  case (Cons e keys)
  obtain key tm where e: "e = (key, tm)" by (cases e)
  obtain t1 rt1 r1 where
    one: "handle_keys ucd [(key, tm)] (trial, rt, response) = (t1, rt1, r1)"
    by (cases "handle_keys ucd [(key, tm)] (trial, rt, response)") auto
  have "handle_keys ucd keys (t1, rt1, r1) = (trial', rt', response')"
    using Cons.prems(1) unfolding e by (subst (asm) handle_keys_step) (simp only: one)
  moreover have "\<forall>w\<in>set t1. \<exists>c. w = upper_char ucd c"
    using handle_keys_one_entries [OF one Cons.prems(2)] .
  ultimately show ?case by (rule Cons.IH)
qed

text \<open>The loop flag is lowered only together with a reaction time.\<close>

lemma handle_keys_committed:
  "handle_keys ucd keys (trial, rt, response) = (trial', rt', response')
    \<Longrightarrow> response \<or> rt \<noteq> None \<Longrightarrow> response' \<or> rt' \<noteq> None"
proof (induction keys arbitrary: trial rt response)
  case Nil
  then show ?case by simp
next
  case (Cons e keys)
  obtain key tm where e: "e = (key, tm)" by (cases e)
  obtain t1 rt1 r1 where
    one: "handle_keys ucd [(key, tm)] (trial, rt, response) = (t1, rt1, r1)"
    by (cases "handle_keys ucd [(key, tm)] (trial, rt, response)") auto
  have rest: "handle_keys ucd keys (t1, rt1, r1) = (trial', rt', response')"
    using Cons.prems(1) unfolding e by (subst (asm) handle_keys_step) (simp only: one)
  from one Cons.prems(2) have "r1 \<or> rt1 \<noteq> None"
    unfolding handle_keys_one by (auto split: if_splits)
  with rest show ?case by (rule Cons.IH)
qed

subsection \<open>The collection loop\<close>

lemma collect_results:
  "results_training_phase (session_of (collect ucd input trial rt st)) = results_training_phase st
   \<and> results_test_phase (session_of (collect ucd input trial rt st)) = results_test_phase st"
proof (induction input arbitrary: trial rt st)
  case Nil
  show ?case by simp
next
  case (Cons keys input)
  obtain t1 rt1 resp where h: "handle_keys ucd keys (trial, rt, True) = (t1, rt1, resp)"
    by (cases "handle_keys ucd keys (trial, rt, True)") auto
  show ?case
    by (cases resp) (simp_all add: h Let_def Cons.IH emit_def)
qed

lemma collect_log:
  "\<exists>bufs. log (session_of (collect ucd input trial rt st)) = log st @ map Display bufs"
proof (induction input arbitrary: trial rt st)
  case Nil
  have "log (session_of (collect ucd [] trial rt st)) = log st @ map Display []" by simp
  then show ?case by (rule exI)
next
  case (Cons keys input)
  obtain t1 rt1 resp where h: "handle_keys ucd keys (trial, rt, True) = (t1, rt1, resp)"
    by (cases "handle_keys ucd keys (trial, rt, True)") auto
  show ?case
  proof (cases resp)
    case True
    from Cons.IH [of t1 rt1 "emit [Display (concat t1)] st"]
    obtain bufs where
      "log (session_of (collect ucd input t1 rt1 (emit [Display (concat t1)] st)))
        = log (emit [Display (concat t1)] st) @ map Display bufs" ..
    then have "log (session_of (collect ucd (keys # input) trial rt st))
        = log st @ map Display (concat t1 # bufs)"
      using True h by (simp add: Let_def emit_def)
    then show ?thesis by (rule exI)
  next
    case False
    have "log (session_of (collect ucd (keys # input) trial rt st))
        = log st @ map Display [concat t1]"
      using False h by (simp add: Let_def emit_def)
    then show ?thesis by (rule exI)
  qed
qed

lemma collect_Done:
  "collect ucd input trial rt st = Done (buf, rt', rest) st'
    \<Longrightarrow> \<forall>w\<in>set trial. \<exists>c. w = upper_char ucd c
    \<Longrightarrow> (\<exists>ws. buf = concat ws \<and> (\<forall>w\<in>set ws. \<exists>c. w = upper_char ucd c))
      \<and> rt' \<noteq> None \<and> length rest < length input"
proof (induction input arbitrary: trial rt st)
  case Nil
  then show ?case by simp
next
  case (Cons keys input)
  obtain t1 rt1 resp where h: "handle_keys ucd keys (trial, rt, True) = (t1, rt1, resp)"
    by (cases "handle_keys ucd keys (trial, rt, True)") auto
  have en: "\<forall>w\<in>set t1. \<exists>c. w = upper_char ucd c"
    using handle_keys_entries [OF h Cons.prems(2)] .
  have cm: "resp \<or> rt1 \<noteq> None"
    using handle_keys_committed [OF h] by simp
  show ?case
  proof (cases resp)
    case True
    with Cons.prems(1) h
    have "collect ucd input t1 rt1 (emit [Display (concat t1)] st) = Done (buf, rt', rest) st'"
      by (simp add: Let_def)
    from Cons.IH [OF this en] show ?thesis by simp
  next
    case False
    with Cons.prems(1) h have eq: "buf = concat t1" "rt' = rt1" "rest = input"
      by (auto simp: Let_def)
    from en eq have "\<exists>ws. buf = concat ws \<and> (\<forall>w\<in>set ws. \<exists>c. w = upper_char ucd c)"
      by blast
    then show ?thesis using cm False by (simp add: eq)
  qed
qed

lemma training_attempt_Done:
  assumes "training_attempt ucd blk s input st = Done (rep, rest) st'"
  shows "\<exists>buf t bufs ws. buf = concat ws \<and> (\<forall>w\<in>set ws. \<exists>c. w = upper_char ucd c)
      \<and> rep = (s \<noteq> strip buf)
      \<and> length rest < length input
      \<and> results_training_phase st' = results_training_phase st @
           [\<lparr>block = blk, stimulus = s, participant_response = buf,
             accuracy = (if s = strip buf then 1 else 0), RT = Some t\<rparr>]
      \<and> results_test_phase st' = results_test_phase st
      \<and> log st' = log st @ [Display [], Display s, Wait 4] @ map Display bufs
           @ (if s = strip buf then [] else [Display incorrect_notice, Wait 2])
           @ [Save_training (results_training_phase st')]"
proof -
  let ?st0 = "emit [Display [], Display s, Wait 4] st"
  from assms obtain buf rt st1 where
    c: "collect ucd input [] None ?st0 = Done (buf, rt, rest) st1"
    by (auto simp: training_attempt_def Let_def split: outcome.splits prod.splits)
  from collect_Done [OF c] obtain t ws where
    en: "buf = concat ws" "\<forall>w\<in>set ws. \<exists>c. w = upper_char ucd c"
    and rt: "rt = Some t" and len: "length rest < length input"
    by auto
  from collect_results [of ucd input "[]" None ?st0] c
  have r1: "results_training_phase st1 = results_training_phase st"
    and r2: "results_test_phase st1 = results_test_phase st"
    by (simp_all add: emit_def)
  from collect_log [of ucd input "[]" None ?st0] c
  obtain bufs where l1: "log st1 = log st @ [Display [], Display s, Wait 4] @ map Display bufs"
    by (auto simp: emit_def)
  have rep: "rep = (s \<noteq> strip buf)"
    using assms c by (simp add: training_attempt_def Let_def)
  have res: "results_training_phase st' = results_training_phase st @
           [\<lparr>block = blk, stimulus = s, participant_response = buf,
             accuracy = (if s = strip buf then 1 else 0), RT = Some t\<rparr>]"
    using assms c r1 rt by (auto simp: training_attempt_def Let_def emit_def)
  have tst: "results_test_phase st' = results_test_phase st"
    using assms c r2 by (auto simp: training_attempt_def Let_def emit_def)
  have lg: "log st' = log st1
           @ (if s = strip buf then [] else [Display incorrect_notice, Wait 2])
           @ [Save_training (results_training_phase st')]"
    using assms c by (auto simp: training_attempt_def Let_def emit_def)
  show ?thesis
    using en rep len res tst lg l1
    by (intro exI [of _ buf] exI [of _ t] exI [of _ bufs] exI [of _ ws]) simp
qed

lemma training_attempt_Polling:
  assumes "training_attempt ucd blk s input st = Polling st'"
  shows "\<exists>bufs. results_training_phase st' = results_training_phase st
      \<and> results_test_phase st' = results_test_phase st
      \<and> log st' = log st @ [Display [], Display s, Wait 4] @ map Display bufs"
proof -
  let ?st0 = "emit [Display [], Display s, Wait 4] st"
  from assms have c: "collect ucd input [] None ?st0 = Polling st'"
    by (auto simp: training_attempt_def Let_def split: outcome.splits prod.splits)
  from collect_results [of ucd input "[]" None ?st0] c
  have r1: "results_training_phase st' = results_training_phase st"
    and r2: "results_test_phase st' = results_test_phase st"
    by (simp_all add: emit_def)
  from collect_log [of ucd input "[]" None ?st0] c
  obtain bufs where l1: "log st' = log st @ [Display [], Display s, Wait 4] @ map Display bufs"
    by (auto simp: emit_def)
  show ?thesis using r1 r2 l1 by (intro exI [of _ bufs]) simp
qed

lemma presentations_append: "presentations (xs @ ys) = presentations xs + presentations ys"
  by (simp add: presentations_def)

lemma presentations_Display: "presentations (map Display bufs) = 0"
  by (induction bufs) (simp_all add: presentations_def)

lemma training_attempt_Done_log:
  assumes "training_attempt ucd blk s input st = Done (rep, rest) st'"
  shows "\<exists>es. log st' = log st @ es \<and> presentations es = 1"
proof -
  from training_attempt_Done [OF assms] obtain buf bufs where
    l: "log st' = log st @ [Display [], Display s, Wait 4] @ map Display bufs
           @ (if s = strip buf then [] else [Display incorrect_notice, Wait 2])
           @ [Save_training (results_training_phase st')]"
    by blast
  have "presentations ([Display [], Display s, Wait 4] @ map Display bufs
           @ (if s = strip buf then [] else [Display incorrect_notice, Wait 2])
           @ [Save_training (results_training_phase st')]) = 1"
    by (simp add: presentations_def presentations_Display [unfolded presentations_def])
  with l show ?thesis by blast
qed

lemma training_attempt_Polling_log:
  assumes "training_attempt ucd blk s input st = Polling st'"
  shows "\<exists>es. log st' = log st @ es \<and> presentations es = 1"
proof -
  from training_attempt_Polling [OF assms] obtain bufs where
    l: "log st' = log st @ [Display [], Display s, Wait 4] @ map Display bufs"
    by blast
  have "presentations ([Display [], Display s, Wait 4] @ map Display bufs) = 1"
    by (simp add: presentations_def presentations_Display [unfolded presentations_def])
  with l show ?thesis by blast
qed

subsection \<open>The loop of one stimulus\<close>

declare run_stimulus.simps [simp del]

lemma run_stimulus_Polling:
  "training_attempt ucd blk s input st = Polling st'
    \<Longrightarrow> run_stimulus ucd blk s input st = Polling st'"
  by (subst run_stimulus.simps) simp

lemma run_stimulus_repeat:
  "training_attempt ucd blk s input st = Done (True, rest) st'
    \<Longrightarrow> run_stimulus ucd blk s input st = run_stimulus ucd blk s rest st'"
  by (subst run_stimulus.simps) simp

lemma run_stimulus_advance:
  "training_attempt ucd blk s input st = Done (False, rest) st'
    \<Longrightarrow> run_stimulus ucd blk s input st = Done rest st'"
  by (subst run_stimulus.simps) simp

lemma training_attempt_invariant:
  assumes new: "\<And>buf t ws. buf = concat ws \<Longrightarrow> \<forall>w\<in>set ws. \<exists>c. w = upper_char ucd c \<Longrightarrow>
      Q \<lparr>block = blk, stimulus = s, participant_response = buf,
         accuracy = (if s = strip buf then 1 else 0), RT = Some t\<rparr>"
    and old: "\<forall>r\<in>set (results_training_phase st). Q r"
  shows "\<forall>r\<in>set (results_training_phase (session_of (training_attempt ucd blk s input st))). Q r"
proof (cases "training_attempt ucd blk s input st")
  case (Done x st')
  obtain rep rest where x: "x = (rep, rest)" by (cases x)
  from training_attempt_Done [OF Done [unfolded x]] obtain buf t ws where
    "buf = concat ws" "\<forall>w\<in>set ws. \<exists>c. w = upper_char ucd c"
    "results_training_phase st' = results_training_phase st @
           [\<lparr>block = blk, stimulus = s, participant_response = buf,
             accuracy = (if s = strip buf then 1 else 0), RT = Some t\<rparr>]"
    by blast
  with new [of buf ws t] old show ?thesis by (simp add: Done)
next
  case (Polling st')
  from training_attempt_Polling [OF Polling] old show ?thesis by (auto simp: Polling)
qed

lemma run_stimulus_invariant:
  assumes new: "\<And>buf t ws. buf = concat ws \<Longrightarrow> \<forall>w\<in>set ws. \<exists>c. w = upper_char ucd c \<Longrightarrow>
      Q \<lparr>block = blk, stimulus = s, participant_response = buf,
         accuracy = (if s = strip buf then 1 else 0), RT = Some t\<rparr>"
  shows "\<forall>r\<in>set (results_training_phase st). Q r
    \<Longrightarrow> \<forall>r\<in>set (results_training_phase (session_of (run_stimulus ucd blk s input st))). Q r"
proof (induction input arbitrary: st rule: length_induct)
  case (1 input)
  have att: "\<forall>r\<in>set (results_training_phase (session_of (training_attempt ucd blk s input st))). Q r"
    using new "1.prems" by (rule training_attempt_invariant)
  show ?case
  proof (cases "training_attempt ucd blk s input st")
    case (Polling st')
    with att show ?thesis by (simp add: run_stimulus_Polling [OF Polling])
  next
    case (Done x st')
    obtain rep rest where x: "x = (rep, rest)" by (cases x)
    note d = Done [unfolded x]
    from att have q: "\<forall>r\<in>set (results_training_phase st'). Q r" by (simp add: d)
    show ?thesis
    proof (cases rep)
      case True
      from training_attempt_Done [OF d] have "length rest < length input" by blast
      with "1.IH" q
      have "\<forall>r\<in>set (results_training_phase (session_of (run_stimulus ucd blk s rest st'))). Q r"
        by blast
      then show ?thesis using d True by (simp add: run_stimulus_repeat)
    next
      case False
      with d q show ?thesis by (simp add: run_stimulus_advance)
    qed
  qed
qed

lemma run_block_invariant:
  assumes new: "\<And>s buf t ws. buf = concat ws \<Longrightarrow> \<forall>w\<in>set ws. \<exists>c. w = upper_char ucd c \<Longrightarrow>
      Q \<lparr>block = blk, stimulus = s, participant_response = buf,
         accuracy = (if s = strip buf then 1 else 0), RT = Some t\<rparr>"
  shows "\<forall>r\<in>set (results_training_phase st). Q r
    \<Longrightarrow> \<forall>r\<in>set (results_training_phase (session_of (run_block ucd blk ss input st))). Q r"
proof (induction ss arbitrary: input st)
  case Nil
  then show ?case by simp
next
  case (Cons s ss)
  have one: "\<forall>r\<in>set (results_training_phase (session_of (run_stimulus ucd blk s input st))). Q r"
    using new Cons.prems by (rule run_stimulus_invariant)
  show ?case
  proof (cases "run_stimulus ucd blk s input st")
    case (Polling st')
    with one show ?thesis by simp
  next
    case (Done rest st')
    with one have "\<forall>r\<in>set (results_training_phase st'). Q r" by simp
    from Cons.IH [OF this] show ?thesis by (simp add: Done)
  qed
qed

lemma run_blocks_invariant:
  assumes new: "\<And>blk s buf t ws. buf = concat ws \<Longrightarrow> \<forall>w\<in>set ws. \<exists>c. w = upper_char ucd c \<Longrightarrow>
      Q \<lparr>block = blk, stimulus = s, participant_response = buf,
         accuracy = (if s = strip buf then 1 else 0), RT = Some t\<rparr>"
  shows "\<forall>r\<in>set (results_training_phase st). Q r
    \<Longrightarrow> \<forall>r\<in>set (results_training_phase (session_of (run_blocks ucd shuffle blks ss input st))). Q r"
proof (induction blks arbitrary: ss input st)
  case Nil
  then show ?case by simp
next
  case (Cons blk blks)
  have one: "\<forall>r\<in>set (results_training_phase
      (session_of (run_block ucd blk (shuffle blk ss) input st))). Q r"
    using new Cons.prems by (rule run_block_invariant)
  show ?case
  proof (cases "run_block ucd blk (shuffle blk ss) input st")
    case (Polling st')
    with one show ?thesis by (simp add: Let_def)
  next
    case (Done rest st')
    with one have "\<forall>r\<in>set (results_training_phase st'). Q r" by simp
    from Cons.IH [OF this] show ?thesis by (simp add: Done Let_def)
  qed
qed

lemma training_phase_invariant:
  assumes new: "\<And>blk s buf t ws. buf = concat ws \<Longrightarrow> \<forall>w\<in>set ws. \<exists>c. w = upper_char ucd c \<Longrightarrow>
      Q \<lparr>block = blk, stimulus = s, participant_response = buf,
         accuracy = (if s = strip buf then 1 else 0), RT = Some t\<rparr>"
    and r: "r \<in> set (results_training_phase (session_of (training_phase ucd shuffle ss input start)))"
  shows "Q r"
proof -
  have "\<forall>r\<in>set (results_training_phase start). Q r" by (simp add: start_def)
  with new have "\<forall>r\<in>set (results_training_phase
      (session_of (run_blocks ucd shuffle [1, 2] ss input start))). Q r"
    by (rule run_blocks_invariant)
  with r show ?thesis by (simp add: training_phase_def)
qed

subsection \<open>The records of one stimulus\<close>

lemma run_stimulus_shape:
  "\<exists>rs es.
     results_training_phase (session_of (run_stimulus ucd blk s input st))
       = results_training_phase st @ rs
     \<and> log (session_of (run_stimulus ucd blk s input st)) = log st @ es
     \<and> (\<forall>r\<in>set rs. block r = blk \<and> stimulus r = s)
     \<and> (case run_stimulus ucd blk s input st of
          Done rest st' \<Rightarrow>
            (\<exists>k. map accuracy rs = replicate k 0 @ [1]) \<and> presentations es = length rs
        | Polling st' \<Rightarrow>
            map accuracy rs = replicate (length rs) 0 \<and> presentations es = Suc (length rs))"
proof (induction input arbitrary: st rule: length_induct)
  case (1 input)
  show ?case
  proof (cases "training_attempt ucd blk s input st")
    case (Polling st')
    from training_attempt_Polling [OF Polling]
    have r: "results_training_phase st' = results_training_phase st @ []" by simp
    from training_attempt_Polling_log [OF Polling] obtain es where
      l: "log st' = log st @ es" and p: "presentations es = 1" by blast
    have run: "run_stimulus ucd blk s input st = Polling st'"
      using Polling by (rule run_stimulus_Polling)
    show ?thesis
      unfolding run using r l p by (intro exI [of _ "[]"] exI [of _ es]) simp
  next
    case (Done x st1)
    obtain rep rest where x: "x = (rep, rest)" by (cases x)
    note d = Done [unfolded x]
    from training_attempt_Done [OF d] obtain buf t where
      rep: "rep = (s \<noteq> strip buf)" and len: "length rest < length input"
      and r0: "results_training_phase st1 = results_training_phase st @
           [\<lparr>block = blk, stimulus = s, participant_response = buf,
             accuracy = (if s = strip buf then 1 else 0), RT = Some t\<rparr>]"
      by blast
    define r where "r = \<lparr>block = blk, stimulus = s, participant_response = buf,
             accuracy = (if s = strip buf then 1 else (0::nat)), RT = Some t\<rparr>"
    have rb: "block r = blk" "stimulus r = s" "accuracy r = (if rep then 0 else 1)"
      by (simp_all add: r_def rep)
    have r1: "results_training_phase st1 = results_training_phase st @ [r]"
      using r0 by (simp add: r_def)
    from training_attempt_Done_log [OF d] obtain es0 where
      l0: "log st1 = log st @ es0" and p0: "presentations es0 = 1" by blast
    show ?thesis
    proof (cases rep)
      case False
      have run: "run_stimulus ucd blk s input st = Done rest st1"
        using d False by (simp add: run_stimulus_advance)
      have "map accuracy [r] = replicate 0 0 @ [1]" using rb False by simp
      then have k: "\<exists>k. map accuracy [r] = replicate k 0 @ [1]" by (rule exI)
      show ?thesis
        unfolding run using r1 l0 p0 rb k by (intro exI [of _ "[r]"] exI [of _ es0]) simp
    next
      case True
      have run: "run_stimulus ucd blk s input st = run_stimulus ucd blk s rest st1"
        using d True by (simp add: run_stimulus_repeat)
      from "1.IH" len obtain rs es where
        a: "results_training_phase (session_of (run_stimulus ucd blk s rest st1))
             = results_training_phase st1 @ rs"
        and b: "log (session_of (run_stimulus ucd blk s rest st1)) = log st1 @ es"
        and c: "\<forall>r\<in>set rs. block r = blk \<and> stimulus r = s"
        and e: "(case run_stimulus ucd blk s rest st1 of
          Done rest st' \<Rightarrow>
            (\<exists>k. map accuracy rs = replicate k 0 @ [1]) \<and> presentations es = length rs
        | Polling st' \<Rightarrow>
            map accuracy rs = replicate (length rs) 0 \<and> presentations es = Suc (length rs))"
        by blast
      have a': "results_training_phase (session_of (run_stimulus ucd blk s rest st1))
             = results_training_phase st @ (r # rs)"
        using a r1 by simp
      have b': "log (session_of (run_stimulus ucd blk s rest st1)) = log st @ (es0 @ es)"
        using b l0 by simp
      have c': "\<forall>r\<in>set (r # rs). block r = blk \<and> stimulus r = s"
        using c rb by simp
      have e': "(case run_stimulus ucd blk s rest st1 of
          Done rest st' \<Rightarrow>
            (\<exists>k. map accuracy (r # rs) = replicate k 0 @ [1])
            \<and> presentations (es0 @ es) = length (r # rs)
        | Polling st' \<Rightarrow>
            map accuracy (r # rs) = replicate (length (r # rs)) 0
            \<and> presentations (es0 @ es) = Suc (length (r # rs)))"
      proof (cases "run_stimulus ucd blk s rest st1")
        case (Done rest' st')
        with e obtain k where k: "map accuracy rs = replicate k 0 @ [1]"
          and p: "presentations es = length rs" by auto
        have "map accuracy (r # rs) = replicate (Suc k) 0 @ [1]"
          using k rb True by simp
        then have "\<exists>k. map accuracy (r # rs) = replicate k 0 @ [1]" by (rule exI)
        then show ?thesis using p p0 by (simp add: Done presentations_append)
      next
        case (Polling st')
        with e rb True p0 show ?thesis by (simp add: presentations_append)
      qed
      show ?thesis
        unfolding run using a' b' c' e' by (intro exI [of _ "r # rs"] exI [of _ "es0 @ es"]) simp
    qed
  qed
qed

lemma example_training_run:
  "results_training_phase (session_of
      (training_phase plain_table (\<lambda>b xs. xs) [str ''VOTEB''] typed_votev_then_voteb start))
   = [\<lparr>block = 1, stimulus = str ''VOTEB'', participant_response = str ''VOTEV'',
        accuracy = 0, RT = Some 3\<rparr>,
      \<lparr>block = 1, stimulus = str ''VOTEB'', participant_response = str ''VOTEB'',
        accuracy = 1, RT = Some 3.5\<rparr>]"
  by (simp add: run_defs typed_votev_then_voteb_def)

subsection \<open>Deleting an entry\<close>

lemma concat_butlast_singletons:
  "\<forall>w\<in>set trial. length w = 1 \<Longrightarrow> concat (butlast trial) = butlast (concat trial)"
proof (induction trial rule: rev_induct)
  case Nil
  show ?case by simp
next
  case (snoc w trial)
  then obtain c where "w = [c]" by (cases w) auto
  then show ?case by simp
qed

lemma concat_butlast_last:
  "concat (butlast trial) @ (if trial = [] then [] else last trial) = concat trial"
  by (induction trial rule: rev_induct) simp_all

text \<open>
  C8, as the code has it. In the training phase a key event other than the commit key,
  wherever it stands in a batch, changes the response buffer (the joined list \<open>trial\<close>)
  as follows. \<open>backspace\<close> removes the entry appended last, which is the upper-case form
  of one key name: one character, unless \<^verbatim>\<open>str.upper\<close> gives several (the sharp s gives
  SS); on an empty buffer it does nothing; where every entry is one character long, it
  removes the last character. Any other key whose name is one character long has its
  upper-case form appended at the end. Any other key name leaves the buffer as it is.
  The reaction time and the loop flag are untouched.
\<close>

theorem key_event_changes_buffer:
  assumes "key \<noteq> str ''return''"
    and "handle_keys ucd pre s = (trial, rt, response)"
  shows "\<exists>trial'. handle_keys ucd (pre @ [(key, tm)]) s = (trial', rt, response)
    \<and> (key = str ''backspace'' \<longrightarrow>
          trial' = butlast trial
          \<and> concat trial' @ (if trial = [] then [] else last trial) = concat trial)
    \<and> (key = str ''backspace'' \<and> (\<forall>w\<in>set trial. length w = 1) \<longrightarrow>
          concat trial' = butlast (concat trial))
    \<and> (key \<noteq> str ''backspace'' \<and> length key = 1 \<longrightarrow>
          trial' = trial @ [upper ucd key] \<and> concat trial' = concat trial @ upper ucd key)
    \<and> (key \<noteq> str ''backspace'' \<and> length key \<noteq> 1 \<longrightarrow> trial' = trial)"
proof -
  have step: "handle_keys ucd (pre @ [(key, tm)]) s
      = handle_keys ucd [(key, tm)] (trial, rt, response)"
    by (simp add: handle_keys_append assms(2))
  show ?thesis
  proof (cases "key = str ''backspace''")
    case True
    have "handle_keys ucd (pre @ [(key, tm)]) s = (butlast trial, rt, response)"
      unfolding step handle_keys_one using assms(1) True by simp
    with True show ?thesis
      by (simp add: concat_butlast_last concat_butlast_singletons)
  next
    case nb: False
    show ?thesis
    proof (cases "length key = 1")
      case True
      have "handle_keys ucd (pre @ [(key, tm)]) s = (trial @ [upper ucd key], rt, response)"
        unfolding step handle_keys_one using assms(1) nb True by simp
      with nb True show ?thesis by simp
    next
      case False
      have "handle_keys ucd (pre @ [(key, tm)]) s = (trial, rt, response)"
        unfolding step handle_keys_one using assms(1) nb False by simp
      with nb False show ?thesis by simp
    qed
  qed
qed

theorem key_event_changes_buffer_witness:
  "handle_keys plain_table [(str ''v'', 1), (str ''o'', 2)] ([], None, True)
     = ([str ''V'', str ''O''], None, True)
   \<and> fst (handle_keys plain_table ([(str ''v'', 1), (str ''o'', 2)] @ [(str ''backspace'', 3)])
        ([], None, True)) = [str ''V'']
   \<and> fst (handle_keys plain_table ([(str ''v'', 1), (str ''o'', 2)] @ [(str ''t'', 3)])
        ([], None, True)) = [str ''V'', str ''O'', str ''T'']
   \<and> fst (handle_keys plain_table ([(str ''v'', 1), (str ''o'', 2)] @ [(str ''lshift'', 3)])
        ([], None, True)) = [str ''V'', str ''O'']"
proof -
  have h: "handle_keys plain_table [(str ''v'', 1), (str ''o'', 2)] ([], None, True)
     = ([str ''V'', str ''O''], None, True)"
    by (simp add: str_def upper_def upper_char_def)
  have n: "str ''backspace'' \<noteq> str ''return''" "str ''t'' \<noteq> str ''return''"
    "str ''lshift'' \<noteq> str ''return''" "str ''t'' \<noteq> str ''backspace''"
    "str ''lshift'' \<noteq> str ''backspace''"
    by (simp_all add: str_eq_iff)
  have u: "upper plain_table (str ''t'') = str ''T''" "length (str ''t'') = 1"
    "length (str ''lshift'') \<noteq> 1"
    by (simp_all add: str_def upper_def upper_char_def)
  from key_event_changes_buffer [OF n(1) h, of 3]
    key_event_changes_buffer [OF n(2) h, of 3]
    key_event_changes_buffer [OF n(3) h, of 3]
  show ?thesis
    using h n u by auto
qed

text \<open>
  C8 as the specification words it fails on the sharp s: the key appends the two
  characters SS to the buffer A, and the next \<open>backspace\<close> removes both, where removing
  the character appended last would leave AS.
\<close>

theorem delete_removes_whole_entry:
  "concat (fst (handle_keys plain_table [([0xDF], 1)] ([str ''A''], None, True))) = str ''ASS''
   \<and> concat (fst (handle_keys plain_table [([0xDF], 1), (str ''backspace'', 2)]
        ([str ''A''], None, True))) = str ''A''
   \<and> str ''A'' \<noteq> butlast (str ''ASS'')"
  by (simp add: str_def upper_def upper_char_def)

subsection \<open>Characters that upper-casing changes\<close>

lemma entries_fixed:
  assumes "\<forall>c. \<forall>d\<in>set (upper_char ucd c). upper_char ucd d = [d]"
    and "\<forall>w\<in>set ws. \<exists>c. w = upper_char ucd c"
  shows "\<forall>d\<in>set (concat ws). upper_char ucd d = [d]"
proof
  fix d assume "d \<in> set (concat ws)"
  then obtain w where "w \<in> set ws" "d \<in> set w" by auto
  with assms(2) obtain c where "w = upper_char ucd c" by auto
  with \<open>d \<in> set w\<close> have "d \<in> set (upper_char ucd c)" by simp
  with assms(1) show "upper_char ucd d = [d]" by blast
qed

lemma changed_never_matches:
  assumes "\<exists>x\<in>set s. upper_char ucd x \<noteq> [x]"
    and "\<forall>d\<in>set buf. upper_char ucd d = [d]"
  shows "s \<noteq> strip buf"
proof
  assume "s = strip buf"
  with assms(1) obtain x where "x \<in> set (strip buf)" "upper_char ucd x \<noteq> [x]" by blast
  with set_strip [of buf] assms(2) show False by blast
qed

lemma changed_never_advances:
  assumes idem: "\<forall>c. \<forall>d\<in>set (upper_char ucd c). upper_char ucd d = [d]"
    and ch: "\<exists>x\<in>set s. upper_char ucd x \<noteq> [x]"
  shows "\<exists>st'. run_stimulus ucd blk s input st = Polling st'"
proof (induction input arbitrary: st rule: length_induct)
  case (1 input)
  show ?case
  proof (cases "training_attempt ucd blk s input st")
    case (Polling st')
    then show ?thesis by (simp add: run_stimulus_Polling)
  next
    case (Done x st')
    obtain rep rest where x: "x = (rep, rest)" by (cases x)
    note d = Done [unfolded x]
    from training_attempt_Done [OF d] obtain buf ws where
      en: "buf = concat ws" "\<forall>w\<in>set ws. \<exists>c. w = upper_char ucd c"
      and rep: "rep = (s \<noteq> strip buf)"
      and len: "length rest < length input"
      by blast
    from entries_fixed [OF idem en(2)] en(1)
    have "\<forall>d\<in>set buf. upper_char ucd d = [d]" by simp
    from changed_never_matches [OF ch this] rep have rep
      by simp
    with d have "run_stimulus ucd blk s input st = run_stimulus ucd blk s rest st'"
      by (simp add: run_stimulus_repeat)
    with "1.IH" len show ?thesis by simp
  qed
qed

lemma upper_char_below: "c < 0x61 \<Longrightarrow> upper_char ucd c = [c]"
  by (simp add: upper_char_def)

lemma upper_char_az: "0x61 \<le> c \<Longrightarrow> c \<le> 0x7A \<Longrightarrow> upper_char ucd c = [c - 32]"
  by (simp add: upper_char_def)

lemma upper_char_between:
  "0x7A < c \<Longrightarrow> c < 0xDF \<Longrightarrow> c \<noteq> 0xB5 \<Longrightarrow> upper_char ucd c = [c]"
  by (simp add: upper_char_def)

lemma upper_char_accented:
  "0xE0 \<le> c \<Longrightarrow> c \<le> 0xFE \<Longrightarrow> c \<noteq> 0xF7 \<Longrightarrow> upper_char ucd c = [c - 32]"
  by (simp add: upper_char_def)

lemma upper_char_beyond: "0xFF < c \<Longrightarrow> upper_char ucd c = ucd c"
  by (simp add: upper_char_def)

lemma upper_char_special:
  "upper_char ucd 0xB5 = [0x39C]" "upper_char ucd 0xDF = [0x53, 0x53]"
  "upper_char ucd 0xF7 = [0xF7]" "upper_char ucd 0xFF = [0x178]"
  by (simp_all add: upper_char_def)

lemma plain_table_idempotent:
  "\<forall>c. \<forall>d\<in>set (upper_char plain_table c). upper_char plain_table d = [d]"
proof (intro allI ballI)
  fix c d assume d: "d \<in> set (upper_char plain_table c)"
  show "upper_char plain_table d = [d]"
  proof (cases "c < 0x61")
    case True
    with d have "d = c" by (simp add: upper_char_below)
    with True show ?thesis by (simp add: upper_char_below)
  next
    case c1: False
    show ?thesis
    proof (cases "c \<le> 0x7A")
      case True
      with c1 d have "d = c - 32" by (simp add: upper_char_az)
      with True have "d < 0x61" by simp
      then show ?thesis by (rule upper_char_below)
    next
      case c2: False
      show ?thesis
      proof (cases "c < 0xDF")
        case True
        show ?thesis
        proof (cases "c = 0xB5")
          case True
          with d have "d = 0x39C" by (simp add: upper_char_special)
          then show ?thesis by (simp add: upper_char_beyond plain_table_def)
        next
          case False
          with c2 True d have "d = c" by (simp add: upper_char_between)
          with c2 True False show ?thesis by (simp add: upper_char_between)
        qed
      next
        case c3: False
        show ?thesis
        proof (cases "c = 0xDF \<or> c = 0xF7 \<or> c = 0xFF")
          case True
          with d have "d = 0x53 \<or> d = 0xF7 \<or> d = 0x178"
            by (auto simp: upper_char_special)
          then show ?thesis
            by (auto simp: upper_char_special upper_char_below upper_char_beyond plain_table_def)
        next
          case c4: False
          show ?thesis
          proof (cases "c \<le> 0xFE")
            case True
            with c3 c4 have r: "0xE0 \<le> c" "c \<le> 0xFE" "c \<noteq> 0xF7" by simp_all
            with d have dc: "d = c - 32" by (simp add: upper_char_accented)
            from r have "0x7A < c - 32" "c - 32 < 0xDF" "c - 32 \<noteq> 0xB5" by simp_all
            then show ?thesis unfolding dc by (rule upper_char_between)
          next
            case False
            with c4 have b: "0xFF < c" by simp
            with d have "d = c" by (simp add: upper_char_beyond plain_table_def)
            with b show ?thesis by (simp add: upper_char_beyond plain_table_def)
          qed
        qed
      qed
    qed
  qed
qed

text \<open>
  C10, as the code has it. The response buffer never holds a character that
  \<^verbatim>\<open>str.upper\<close> changes, whatever keys arrive: every entry is the upper-case form of a
  key name, and upper-casing an upper-case form changes nothing (the hypothesis on the
  table; Python's has the property). That holds of the buffer built from the empty one by
  any events and of every recorded response. So a record whose stimulus has a character
  that \<^verbatim>\<open>str.upper\<close> changes (a lower-case letter with an upper-case form, a to z among
  them) has accuracy 0, and the loop for such a stimulus never returns: on every input it
  is still polling.
\<close>

theorem buffer_holds_upper_case_forms:
  assumes idem: "\<forall>c. \<forall>d\<in>set (upper_char ucd c). upper_char ucd d = [d]"
  shows "(\<forall>d\<in>set (concat (fst (handle_keys ucd keys ([], rt, response)))).
            upper_char ucd d = [d])
   \<and> (\<forall>r\<in>set (results_training_phase
          (session_of (training_phase ucd shuffle training_stimuli_list input start))).
        (\<forall>d\<in>set (participant_response r). upper_char ucd d = [d])
        \<and> ((\<exists>x\<in>set (stimulus r). upper_char ucd x \<noteq> [x]) \<longrightarrow> accuracy r = 0))
   \<and> ((\<exists>x\<in>set s. upper_char ucd x \<noteq> [x]) \<longrightarrow>
        (\<exists>st'. run_stimulus ucd blk s input' st = Polling st'))"
proof (intro conjI ballI impI)
  obtain t1 rt1 r1 where h: "handle_keys ucd keys ([], rt, response) = (t1, rt1, r1)"
    by (cases "handle_keys ucd keys ([], rt, response)") auto
  from handle_keys_entries [OF h] have "\<forall>w\<in>set t1. \<exists>c. w = upper_char ucd c" by simp
  from entries_fixed [OF idem this]
  show "\<And>d. d \<in> set (concat (fst (handle_keys ucd keys ([], rt, response))))
      \<Longrightarrow> upper_char ucd d = [d]"
    by (auto simp: h)
next
  fix r d
  assume r: "r \<in> set (results_training_phase
      (session_of (training_phase ucd shuffle training_stimuli_list input start)))"
    and d: "d \<in> set (participant_response r)"
  have "\<forall>d\<in>set (participant_response r). upper_char ucd d = [d]"
    by (rule training_phase_invariant [OF _ r]) (simp add: entries_fixed [OF idem])
  with d show "upper_char ucd d = [d]" by blast
next
  fix r
  assume r: "r \<in> set (results_training_phase
      (session_of (training_phase ucd shuffle training_stimuli_list input start)))"
    and ch: "\<exists>x\<in>set (stimulus r). upper_char ucd x \<noteq> [x]"
  have "(\<exists>x\<in>set (stimulus r). upper_char ucd x \<noteq> [x]) \<longrightarrow> accuracy r = 0"
  proof (rule training_phase_invariant [OF _ r])
    fix blk s buf t ws
    assume "buf = concat ws" and "\<forall>w\<in>set ws. \<exists>c. w = upper_char ucd c"
    with entries_fixed [OF idem] have "\<forall>d\<in>set buf. upper_char ucd d = [d]" by blast
    then have "(\<exists>x\<in>set s. upper_char ucd x \<noteq> [x]) \<longrightarrow> s \<noteq> strip buf"
      using changed_never_matches [of s ucd buf] by blast
    then show "(\<exists>x\<in>set (stimulus \<lparr>block = blk, stimulus = s, participant_response = buf,
          accuracy = (if s = strip buf then 1 else 0), RT = Some t\<rparr>).
          upper_char ucd x \<noteq> [x]) \<longrightarrow>
        accuracy \<lparr>block = blk, stimulus = s, participant_response = buf,
          accuracy = (if s = strip buf then 1 else 0), RT = Some t\<rparr> = 0"
      by (simp del: bex_simps)
  qed
  with ch show "accuracy r = 0" by blast
next
  assume "\<exists>x\<in>set s. upper_char ucd x \<noteq> [x]"
  with idem show "\<exists>st'. run_stimulus ucd blk s input' st = Polling st'"
    by (rule changed_never_advances)
qed

theorem buffer_holds_upper_case_forms_witness:
  "(\<exists>x\<in>set (str ''Voteb''). upper_char plain_table x \<noteq> [x])
   \<and> (\<exists>st'. run_stimulus plain_table 1 (str ''Voteb'')
          [[(str ''v'', 1), (str ''o'', 2), (str ''t'', 3), (str ''e'', 4), (str ''b'', 5),
            (str ''return'', 6)]] start
        = Polling st')"
proof -
  have ch: "\<exists>x\<in>set (str ''Voteb''). upper_char plain_table x \<noteq> [x]"
    by (simp add: str_def upper_char_def)
  from buffer_holds_upper_case_forms [OF plain_table_idempotent, of "[]" None True
      "\<lambda>b xs. xs" "[]" "[]" "str ''Voteb''" 1
      "[[(str ''v'', 1), (str ''o'', 2), (str ''t'', 3), (str ''e'', 4), (str ''b'', 5),
         (str ''return'', 6)]]" start]
  have "(\<exists>x\<in>set (str ''Voteb''). upper_char plain_table x \<noteq> [x]) \<longrightarrow>
      (\<exists>st'. run_stimulus plain_table 1 (str ''Voteb'')
          [[(str ''v'', 1), (str ''o'', 2), (str ''t'', 3), (str ''e'', 4), (str ''b'', 5),
            (str ''return'', 6)]] start
        = Polling st')"
    by blast
  with ch show ?thesis by blast
qed

text \<open>
  C10 as the specification words it fails on the feminine ordinal indicator U+00AA, a
  lower-case letter that \<^verbatim>\<open>str.upper\<close> leaves as it is: the key puts it into the buffer,
  and the stimulus made of it is matched at the first attempt, with accuracy 1, and the
  loop returns.
\<close>

theorem ordinal_indicator_is_typed_and_matched:
  "islower_latin1 0xAA
   \<and> 0xAA \<in> set (concat (fst (handle_keys plain_table [([0xAA], 1)] ([], None, True))))
   \<and> (case run_stimulus plain_table 1 [0xAA] [[([0xAA], 1), (str ''return'', 2)]] start of
        Done rest st' \<Rightarrow> map accuracy (results_training_phase st') = [1]
      | Polling st' \<Rightarrow> False)"
  by (simp add: run_defs islower_latin1_def)

subsection \<open>Wrong answers without end\<close>

lemma handle_keys_typed_x:
  "handle_keys ucd (replicate k (str ''x'', 0) @ [(str ''return'', 0)]) (trial, rt, True)
    = (trial @ replicate k (str ''X''), Some 0, False)"
proof (induction k arbitrary: trial)
  case 0
  show ?case by simp
next
  case (Suc k)
  have x: "str ''x'' \<noteq> str ''return''" "str ''x'' \<noteq> str ''backspace''"
    by (simp_all add: str_eq_iff)
  have u: "length (str ''x'') = 1" "upper ucd (str ''x'') = str ''X''"
    by (simp_all add: str_def upper_def upper_char_def)
  have "handle_keys ucd (replicate (Suc k) (str ''x'', 0) @ [(str ''return'', 0)]) (trial, rt, True)
      = handle_keys ucd (replicate k (str ''x'', 0) @ [(str ''return'', 0)])
          (trial @ [str ''X''], rt, True)"
    using x u by simp
  also have "\<dots> = ((trial @ [str ''X'']) @ replicate k (str ''X''), Some 0, False)"
    by (rule Suc.IH)
  finally show ?case by (simp add: replicate_app_Cons_same)
qed

lemma strip_typed_x: "strip (concat (replicate (Suc k) (str ''X''))) = replicate (Suc k) 88"
proof -
  have c: "concat (replicate n (str ''X'')) = replicate n 88" for n
    by (induction n) (simp_all add: str_def)
  have "\<not> isspace 88" by (simp add: isspace_def)
  then have d: "dropWhile isspace (replicate (Suc k) 88) = replicate (Suc k) 88"
    by simp
  show ?thesis
    unfolding c strip_def by (simp only: d rev_replicate)
qed

lemma too_long_answer_fails:
  "\<exists>st1 r. training_attempt ucd blk s (too_long_answer s # rest) st = Done (True, rest) st1
     \<and> results_training_phase st1 = results_training_phase st @ [r]"
proof -
  have h: "handle_keys ucd (too_long_answer s) ([], None, True)
      = (replicate (Suc (length s)) (str ''X''), Some 0, False)"
    unfolding too_long_answer_def using handle_keys_typed_x [of ucd "Suc (length s)" "[]" None]
    by simp
  have "length (strip (concat (replicate (Suc (length s)) (str ''X'')))) = Suc (length s)"
    by (simp only: strip_typed_x length_replicate)
  then have ne: "s \<noteq> strip (concat (replicate (Suc (length s)) (str ''X'')))"
    by auto
  show ?thesis
    unfolding training_attempt_def using h ne
    by (simp add: Let_def emit_def del: replicate.simps)
qed

lemma too_long_answers_never_end:
  "\<exists>st'. run_stimulus ucd blk s (replicate n (too_long_answer s)) st = Polling st'
     \<and> length (results_training_phase st') = length (results_training_phase st) + n"
proof (induction n arbitrary: st)
  case 0
  have "training_attempt ucd blk s [] st
      = Polling (emit [Display [], Display s, Wait 4] st)"
    by (simp add: training_attempt_def)
  then have "run_stimulus ucd blk s [] st = Polling (emit [Display [], Display s, Wait 4] st)"
    by (rule run_stimulus_Polling)
  then show ?case by (simp add: emit_def)
next
  case (Suc n)
  from too_long_answer_fails [of ucd blk s "replicate n (too_long_answer s)" st]
  obtain st1 r where
    a: "training_attempt ucd blk s (too_long_answer s # replicate n (too_long_answer s)) st
         = Done (True, replicate n (too_long_answer s)) st1"
    and r: "results_training_phase st1 = results_training_phase st @ [r]"
    by blast
  from run_stimulus_repeat [OF a]
  have run: "run_stimulus ucd blk s (replicate (Suc n) (too_long_answer s)) st
      = run_stimulus ucd blk s (replicate n (too_long_answer s)) st1"
    by simp
  from Suc.IH [of st1] obtain st' where
    "run_stimulus ucd blk s (replicate n (too_long_answer s)) st1 = Polling st'"
    "length (results_training_phase st') = length (results_training_phase st1) + n"
    by blast
  with run r show ?case by simp
qed

subsection \<open>The claims\<close>

text \<open>
  C1. Every record the training phase appends has accuracy 1 if and only if its stimulus
  equals the typed response with the surrounding whitespace stripped (an equality of
  strings: same characters, same case, same length); otherwise the accuracy is 0.
\<close>

theorem training_accuracy_iff_exact_match:
  assumes "r \<in> set (results_training_phase
      (session_of (training_phase ucd shuffle training_stimuli_list input start)))"
  shows "(accuracy r = 1 \<longleftrightarrow> stimulus r = strip (participant_response r))
    \<and> (stimulus r \<noteq> strip (participant_response r) \<longrightarrow> accuracy r = 0)"
  by (rule training_phase_invariant [OF _ assms]) simp

theorem training_accuracy_iff_exact_match_witness:
  "\<lparr>block = 1, stimulus = str ''VOTEB'', participant_response = str ''VOTEV'',
      accuracy = 0, RT = Some 3\<rparr> \<in> set (results_training_phase (session_of
        (training_phase plain_table (\<lambda>b xs. xs) [str ''VOTEB''] typed_votev_then_voteb start)))
   \<and> \<lparr>block = 1, stimulus = str ''VOTEB'', participant_response = str ''VOTEB'',
      accuracy = 1, RT = Some 3.5\<rparr> \<in> set (results_training_phase (session_of
        (training_phase plain_table (\<lambda>b xs. xs) [str ''VOTEB''] typed_votev_then_voteb start)))
   \<and> str ''VOTEB'' \<noteq> strip (str ''VOTEV'')
   \<and> str ''VOTEB'' = strip (str ''VOTEB'')"
proof -
  let ?run = "results_training_phase (session_of
      (training_phase plain_table (\<lambda>b xs. xs) [str ''VOTEB''] typed_votev_then_voteb start))"
  have a: "\<lparr>block = 1, stimulus = str ''VOTEB'', participant_response = str ''VOTEV'',
      accuracy = 0, RT = Some 3\<rparr> \<in> set ?run"
    by (simp add: example_training_run)
  have b: "\<lparr>block = 1, stimulus = str ''VOTEB'', participant_response = str ''VOTEB'',
      accuracy = 1, RT = Some 3.5\<rparr> \<in> set ?run"
    by (simp add: example_training_run)
  show ?thesis
    using training_accuracy_iff_exact_match [OF a] training_accuracy_iff_exact_match [OF b] a b
    by simp
qed

text \<open>
  C9. Every record of the training phase has a reaction time: the collection loop ends
  only in a batch that holds a commit event, and that event sets the time.
\<close>

theorem training_reaction_time_present:
  assumes "r \<in> set (results_training_phase
      (session_of (training_phase ucd shuffle training_stimuli_list input start)))"
  shows "RT r \<noteq> None"
  by (rule training_phase_invariant [OF _ assms]) simp

theorem training_reaction_time_present_witness:
  "\<lparr>block = 1, stimulus = str ''VOTEB'', participant_response = str ''VOTEV'',
      accuracy = 0, RT = Some 3\<rparr> \<in> set (results_training_phase (session_of
        (training_phase plain_table (\<lambda>b xs. xs) [str ''VOTEB''] typed_votev_then_voteb start)))
   \<and> RT \<lparr>block = 1, stimulus = str ''VOTEB'', participant_response = str ''VOTEV'',
      accuracy = 0, RT = Some 3\<rparr> \<noteq> None"
proof -
  have a: "\<lparr>block = 1, stimulus = str ''VOTEB'', participant_response = str ''VOTEV'',
      accuracy = 0, RT = Some 3\<rparr> \<in> set (results_training_phase (session_of
        (training_phase plain_table (\<lambda>b xs. xs) [str ''VOTEB''] typed_votev_then_voteb start)))"
    by (simp add: example_training_run)
  show ?thesis
    using training_reaction_time_present [OF a] a by simp
qed

text \<open>
  C3. The loop of one training stimulus appends one record per attempt, each with the
  block and the stimulus of the loop. As long as the records have accuracy 0 the stimulus
  is presented again: the stimulus has been presented once per record when the loop has
  returned, and once more than there are records while it is polling. The loop returns
  right after the first record with accuracy 1, which is its last. No number of failed
  attempts ends it: after any \<open>n\<close> wrong answers there are \<open>n\<close> records and the loop is
  polling for the next answer.
\<close>

theorem one_record_per_attempt_until_correct:
  "(\<exists>rs es.
     results_training_phase (session_of (run_stimulus ucd blk s input st))
       = results_training_phase st @ rs
     \<and> log (session_of (run_stimulus ucd blk s input st)) = log st @ es
     \<and> (\<forall>r\<in>set rs. block r = blk \<and> stimulus r = s)
     \<and> (case run_stimulus ucd blk s input st of
          Done rest st' \<Rightarrow>
            (\<exists>k. map accuracy rs = replicate k 0 @ [1]) \<and> presentations es = length rs
        | Polling st' \<Rightarrow>
            map accuracy rs = replicate (length rs) 0 \<and> presentations es = Suc (length rs)))
   \<and> (\<exists>st'. run_stimulus ucd blk s (replicate n (too_long_answer s)) st = Polling st'
         \<and> length (results_training_phase st') = length (results_training_phase st) + n)"
  using run_stimulus_shape [of ucd blk s input st] too_long_answers_never_end [of ucd blk s n st]
  by (rule conjI)


theorem one_record_per_attempt_until_correct_witness:
  "map accuracy (results_training_phase (session_of
      (run_stimulus plain_table 1 (str ''VOTEB'') typed_votev_then_voteb start))) = [0, 1]
   \<and> presentations (log (session_of
      (run_stimulus plain_table 1 (str ''VOTEB'') typed_votev_then_voteb start))) = 2
   \<and> (\<exists>st'. run_stimulus plain_table 1 (str ''VOTEB'')
          (replicate 3 (too_long_answer (str ''VOTEB''))) start = Polling st'
        \<and> length (results_training_phase st') = 3)"
proof -
  have e: "map accuracy (results_training_phase (session_of
      (run_stimulus plain_table 1 (str ''VOTEB'') typed_votev_then_voteb start))) = [0, 1]"
    "presentations (log (session_of
      (run_stimulus plain_table 1 (str ''VOTEB'') typed_votev_then_voteb start))) = 2"
    by (simp_all add: run_defs typed_votev_then_voteb_def presentations_def incorrect_notice_def)
  from one_record_per_attempt_until_correct
    [of plain_table 1 "str ''VOTEB''" typed_votev_then_voteb start 3]
  have "\<exists>st'. run_stimulus plain_table 1 (str ''VOTEB'')
          (replicate 3 (too_long_answer (str ''VOTEB''))) start = Polling st'
        \<and> length (results_training_phase st') = length (results_training_phase start) + 3"
    by (rule conjunct2)
  then show ?thesis using e by (simp add: start_def)
qed

end
